theory Spec2Isabelle
  imports Main
begin

section \<open>Data model\<close>

text \<open>
  \<^verbatim>\<open>enum class Cell { Empty, X, O };\<close>
  The third mark is written \<open>O'\<close>: \<open>O\<close> is HOL's composition of relations.
\<close>

datatype Cell = Empty | X | O'

text \<open>
  \<^verbatim>\<open>std::array<Cell, SIZE*SIZE> cells;\<close> is the only field of class \<open>Board\<close>: a board
  is the list of its nine cells in row-major order. Every board of the program has
  length nine; the theorems below say so where they need it.
\<close>

type_synonym Board = "Cell list"

abbreviation SIZE :: int where
  "SIZE \<equiv> 3"

text \<open>
  The program's \<open>int\<close> is a 32-bit signed integer. Signed overflow and an index outside
  the array are undefined behaviour in C++: the model returns \<open>None\<close> there, so that
  every \<open>Some\<close> result is a defined run of the program.
\<close>

definition INT_MIN :: int where
  "INT_MIN = - 2147483648"

definition INT_MAX :: int where
  "INT_MAX = 2147483647"

definition in_int :: "int \<Rightarrow> bool" where
  "in_int v = (INT_MIN \<le> v \<and> v \<le> INT_MAX)"

text \<open>
  \<^verbatim>\<open>cells[r * SIZE + c]\<close>: the index expression shared by \<open>makeMove\<close>, \<open>undoMove\<close> and
  \<open>get\<close>. No bound on \<open>r\<close> or \<open>c\<close> is tested by the source; the access is defined
  exactly when the computed index falls inside the nine cells.
\<close>

definition cell_index :: "int \<Rightarrow> int \<Rightarrow> nat option" where
  "cell_index r c =
     (if in_int (r * SIZE) \<and> in_int (r * SIZE + c)
         \<and> 0 \<le> r * SIZE + c \<and> r * SIZE + c < SIZE * SIZE
      then Some (nat (r * SIZE + c)) else None)"

section \<open>Board\<close>

text \<open>
  \<^verbatim>\<open>
  bool makeMove(int r, int c, Cell player) {
      int idx = r * SIZE + c;
      if (cells[idx] == Cell::Empty) { cells[idx] = player; return true; }
      return false;
  }\<close>
  The result is the returned flag together with the board after the call.
\<close>

definition makeMove :: "Board \<Rightarrow> int \<Rightarrow> int \<Rightarrow> Cell \<Rightarrow> (bool \<times> Board) option" where
  "makeMove cells r c player =
     (case cell_index r c of
        None \<Rightarrow> None
      | Some idx \<Rightarrow>
          if cells ! idx = Empty then Some (True, cells[idx := player])
          else Some (False, cells))"

text \<open>
  \<^verbatim>\<open>void undoMove(int r, int c) { cells[r * SIZE + c] = Cell::Empty; }\<close>
\<close>

definition undoMove :: "Board \<Rightarrow> int \<Rightarrow> int \<Rightarrow> Board option" where
  "undoMove cells r c =
     (case cell_index r c of
        None \<Rightarrow> None
      | Some idx \<Rightarrow> Some (cells[idx := Empty]))"

text \<open>
  \<^verbatim>\<open>Cell get(int r, int c) const { return cells[r*SIZE + c]; }\<close>
\<close>

definition get :: "Board \<Rightarrow> int \<Rightarrow> int \<Rightarrow> Cell option" where
  "get cells r c =
     (case cell_index r c of
        None \<Rightarrow> None
      | Some idx \<Rightarrow> Some (cells ! idx))"

text \<open>
  \<^verbatim>\<open>
  for (int r = 0; r < SIZE; ++r) for (int c = 0; c < SIZE; ++c)
      if (cells[r * SIZE + c] == Cell::Empty) moves.emplace_back(r,c);\<close>
  Both loop variables stay in \<open>{0, 1, 2}\<close>, so every read is inside the array.
\<close>

definition availableMoves :: "Board \<Rightarrow> (int \<times> int) list" where
  "availableMoves cells =
     concat (map (\<lambda>r. concat (map (\<lambda>c.
         if cells ! nat (r * SIZE + c) = Empty then [(r, c)] else []) [0, 1, 2])) [0, 1, 2])"

text \<open>
  \<^verbatim>\<open>for (auto &v: cells) if (v == Cell::Empty) return false; return true;\<close>
\<close>

definition isFull :: "Board \<Rightarrow> bool" where
  "isFull cells = (\<not> list_ex (\<lambda>v. v = Empty) cells)"

text \<open>\<^verbatim>\<open>void reset() { cells.fill(Cell::Empty); }\<close>, also the constructor.\<close>

definition reset :: "Board" where
  "reset = replicate 9 Empty"

text \<open>
  \<open>checkWinner\<close> runs three scans, each returning at its first hit: the rows
  \<open>r = 0, 1, 2\<close>, then the columns \<open>c = 0, 1, 2\<close>, then the two diagonals.
  \<^verbatim>\<open>
  for (int r=0;r<SIZE;++r)
      if (cells[r*SIZE] != Cell::Empty && cells[r*SIZE] == cells[r*SIZE+1]
          && cells[r*SIZE] == cells[r*SIZE+2]) return cells[r*SIZE];
  for (int c=0;c<SIZE;++c)
      if (cells[c] != Cell::Empty && cells[c] == cells[SIZE + c]
          && cells[c] == cells[2*SIZE + c]) return cells[c];
  if (cells[0] != Cell::Empty && cells[0] == cells[4] && cells[0] == cells[8]) return cells[0];
  if (cells[2] != Cell::Empty && cells[2] == cells[4] && cells[2] == cells[6]) return cells[2];
  return std::nullopt;\<close>
\<close>

definition row_hit :: "Board \<Rightarrow> nat \<Rightarrow> bool" where
  "row_hit cells r =
     (cells ! (r * 3) \<noteq> Empty \<and> cells ! (r * 3) = cells ! (r * 3 + 1)
      \<and> cells ! (r * 3) = cells ! (r * 3 + 2))"

definition col_hit :: "Board \<Rightarrow> nat \<Rightarrow> bool" where
  "col_hit cells c =
     (cells ! c \<noteq> Empty \<and> cells ! c = cells ! (3 + c) \<and> cells ! c = cells ! (2 * 3 + c))"

definition checkWinner :: "Board \<Rightarrow> Cell option" where
  "checkWinner cells =
     (case find (row_hit cells) [0, 1, 2] of
        Some r \<Rightarrow> Some (cells ! (r * 3))
      | None \<Rightarrow>
     (case find (col_hit cells) [0, 1, 2] of
        Some c \<Rightarrow> Some (cells ! c)
      | None \<Rightarrow>
          if cells ! 0 \<noteq> Empty \<and> cells ! 0 = cells ! 4 \<and> cells ! 0 = cells ! 8
          then Some (cells ! 0)
          else if cells ! 2 \<noteq> Empty \<and> cells ! 2 = cells ! 4 \<and> cells ! 2 = cells ! 6
          then Some (cells ! 2)
          else None))"

section \<open>AI: the minimax search\<close>

text \<open>
  \<^verbatim>\<open>class AI { ... Cell ai, human; };\<close>
\<close>

record AI =
  ai :: Cell
  human :: Cell

text \<open>
  \<^verbatim>\<open>
  int scoreForWinner(Cell winner) const {
      if (winner == ai) return 10;
      if (winner == human) return -10;
      return 0;
  }\<close>
\<close>

definition scoreForWinner :: "AI \<Rightarrow> Cell \<Rightarrow> int" where
  "scoreForWinner a winner =
     (if winner = ai a then 10 else if winner = human a then - 10 else 0)"

text \<open>
  \<^verbatim>\<open>int minimax(Board &board, int depth, bool isMaximizing)\<close> takes the board by
  reference and writes to it, so the model returns the score together with the board
  as the call leaves it. The first argument bounds the nesting of recursive calls
  (\<open>None\<close> when it is used up); \<open>minimax_returns\<close> below shows that any bound above
  the number of empty cells is enough, and \<open>minimax_independent\<close> that the result does
  not depend on it. \<open>depth + 1\<close> past \<open>INT_MAX\<close> is undefined, hence \<open>None\<close>.

  \<^verbatim>\<open>
  auto winner = board.checkWinner();
  if (winner.has_value()) return scoreForWinner(*winner);
  if (board.isFull()) return 0;
  if (isMaximizing) {
      int best = std::numeric_limits<int>::min();
      for (auto m: board.availableMoves()) {
          board.makeMove(m.first, m.second, ai);
          best = std::max(best, minimax(board, depth+1, false));
          board.undoMove(m.first, m.second);
      }
      return best;
  } else {
      int best = std::numeric_limits<int>::max();
      for (auto m: board.availableMoves()) {
          board.makeMove(m.first, m.second, human);
          best = std::min(best, minimax(board, depth+1, true));
          board.undoMove(m.first, m.second);
      }
      return best;
  }\<close>
  \<open>minimax_loop\<close> is the body of the two \<open>for\<close> loops over the list of moves that
  \<open>availableMoves\<close> returned before the first iteration; it carries \<open>best\<close> and the
  board from one iteration to the next.
\<close>

fun minimax :: "nat \<Rightarrow> AI \<Rightarrow> Board \<Rightarrow> int \<Rightarrow> bool \<Rightarrow> (int \<times> Board) option"
  and minimax_loop ::
    "nat \<Rightarrow> AI \<Rightarrow> int \<Rightarrow> bool \<Rightarrow> (int \<times> int) list \<Rightarrow> int \<Rightarrow> Board \<Rightarrow> (int \<times> Board) option"
where
  "minimax 0 a board depth isMaximizing = None"
| "minimax (Suc fuel) a board depth isMaximizing =
     (case checkWinner board of
        Some winner \<Rightarrow> Some (scoreForWinner a winner, board)
      | None \<Rightarrow>
          if isFull board then Some (0, board)
          else if isMaximizing
          then minimax_loop fuel a depth True (availableMoves board) INT_MIN board
          else minimax_loop fuel a depth False (availableMoves board) INT_MAX board)"
| "minimax_loop fuel a depth isMaximizing [] best board = Some (best, board)"
| "minimax_loop fuel a depth isMaximizing (m # ms) best board =
     (case makeMove board (fst m) (snd m) (if isMaximizing then ai a else human a) of
        None \<Rightarrow> None
      | Some (_, board1) \<Rightarrow>
          if \<not> in_int (depth + 1) then None
          else
     (case minimax fuel a board1 (depth + 1) (\<not> isMaximizing) of
        None \<Rightarrow> None
      | Some (score, board2) \<Rightarrow>
     (case undoMove board2 (fst m) (snd m) of
        None \<Rightarrow> None
      | Some board3 \<Rightarrow>
          minimax_loop fuel a depth isMaximizing ms
            (if isMaximizing then max best score else min best score) board3)))"

text \<open>
  \<^verbatim>\<open>
  std::pair<int,int> findBestMove(Board board) {
      int bestScore = std::numeric_limits<int>::min();
      std::pair<int,int> bestMove = {-1,-1};
      for (auto m: board.availableMoves()) {
          board.makeMove(m.first, m.second, ai);
          int score = minimax(board, 0, false);
          board.undoMove(m.first, m.second);
          if (score > bestScore) { bestScore = score; bestMove = m; }
      }
      return bestMove;
  }\<close>
  The board is a by-value copy, so only the move is returned.
\<close>

fun findBestMove_loop ::
  "nat \<Rightarrow> AI \<Rightarrow> (int \<times> int) list \<Rightarrow> int \<Rightarrow> int \<times> int \<Rightarrow> Board \<Rightarrow> (int \<times> int) option"
where
  "findBestMove_loop fuel a [] bestScore bestMove board = Some bestMove"
| "findBestMove_loop fuel a (m # ms) bestScore bestMove board =
     (case makeMove board (fst m) (snd m) (ai a) of
        None \<Rightarrow> None
      | Some (_, board1) \<Rightarrow>
     (case minimax fuel a board1 0 False of
        None \<Rightarrow> None
      | Some (score, board2) \<Rightarrow>
     (case undoMove board2 (fst m) (snd m) of
        None \<Rightarrow> None
      | Some board3 \<Rightarrow>
          if score > bestScore then findBestMove_loop fuel a ms score m board3
          else findBestMove_loop fuel a ms bestScore bestMove board3)))"

definition findBestMove :: "nat \<Rightarrow> AI \<Rightarrow> Board \<Rightarrow> (int \<times> int) option" where
  "findBestMove fuel a board =
     findBestMove_loop fuel a (availableMoves board) INT_MIN (- 1, - 1) board"

section \<open>Game: the session\<close>

text \<open>\<^verbatim>\<open>enum class Mode { HumanVsHuman, HumanVsAI };\<close>\<close>

datatype Mode = HumanVsHuman | HumanVsAI

text \<open>
  The fields of class \<open>Game\<close>, in the order of their declaration. The field the source
  names \<open>ai\<close> is \<open>game_ai\<close> here, \<open>ai\<close> being a field of \<open>AI\<close> already.
\<close>

record Game =
  board :: Board
  current :: Cell
  mode :: Mode
  game_ai :: AI
  over :: bool
  winnerOpt :: "Cell option"
  scoreX :: int
  scoreO :: int

text \<open>
  \<^verbatim>\<open>
  Game(): board(), current(Cell::X), mode(Mode::HumanVsAI), ai(Cell::O, Cell::X),
          scoreX(0), scoreO(0) {}\<close>
  with the default member initialisers \<^verbatim>\<open>bool over = false;\<close> and an empty \<open>winnerOpt\<close>.
\<close>

definition Game_init :: Game where
  "Game_init =
     \<lparr>board = reset, current = X, mode = HumanVsAI, game_ai = \<lparr>ai = O', human = X\<rparr>,
      over = False, winnerOpt = None, scoreX = 0, scoreO = 0\<rparr>"

text \<open>
  \<^verbatim>\<open>void restart() { board.reset(); current = Cell::X; over = false; winnerOpt.reset(); }\<close>
\<close>

definition restart :: "Game \<Rightarrow> Game" where
  "restart g = g\<lparr>board := reset, current := X, over := False, winnerOpt := None\<rparr>"

text \<open>\<^verbatim>\<open>void switchTurn() { current = (current==Cell::X?Cell::O:Cell::X); }\<close>\<close>

definition switchTurn :: "Game \<Rightarrow> Game" where
  "switchTurn g = g\<lparr>current := (if current g = X then O' else X)\<rparr>"

text \<open>
  \<^verbatim>\<open>
  void checkGameState() {
      auto w = board.checkWinner();
      if (w.has_value()) {
          over = true; winnerOpt = w;
          if (*w == Cell::X) ++scoreX; else ++scoreO;
      } else if (board.isFull()) {
          over = true; winnerOpt = std::nullopt; // draw
      }
  }\<close>
  The counters are \<open>int\<close>: an increment past \<open>INT_MAX\<close> is undefined, hence \<open>None\<close>.
\<close>

definition checkGameState :: "Game \<Rightarrow> Game option" where
  "checkGameState g =
     (case checkWinner (board g) of
        Some w \<Rightarrow>
          if w = X
          then (if in_int (scoreX g + 1)
                then Some (g\<lparr>over := True, winnerOpt := Some w, scoreX := scoreX g + 1\<rparr>)
                else None)
          else (if in_int (scoreO g + 1)
                then Some (g\<lparr>over := True, winnerOpt := Some w, scoreO := scoreO g + 1\<rparr>)
                else None)
      | None \<Rightarrow>
          if isFull (board g) then Some (g\<lparr>over := True, winnerOpt := None\<rparr>)
          else Some g)"

text \<open>
  The tail shared by \<open>playMove\<close> and \<open>aiMove\<close>:
  \<^verbatim>\<open>checkGameState(); if (!over) switchTurn();\<close>
\<close>

definition finishMove :: "Game \<Rightarrow> Game option" where
  "finishMove g =
     (case checkGameState g of
        None \<Rightarrow> None
      | Some g1 \<Rightarrow> Some (if \<not> over g1 then switchTurn g1 else g1))"

text \<open>
  \<^verbatim>\<open>
  bool playMove(int r, int c) {
      if (over) return false;
      if (board.get(r,c) != Cell::Empty) return false;
      board.makeMove(r,c,current);
      checkGameState();
      if (!over) switchTurn();
      return true;
  }\<close>
\<close>

definition playMove :: "Game \<Rightarrow> int \<Rightarrow> int \<Rightarrow> (bool \<times> Game) option" where
  "playMove g r c =
     (if over g then Some (False, g)
      else
     (case get (board g) r c of
        None \<Rightarrow> None
      | Some v \<Rightarrow>
          if v \<noteq> Empty then Some (False, g)
          else
     (case makeMove (board g) r c (current g) of
        None \<Rightarrow> None
      | Some (_, board1) \<Rightarrow>
     (case finishMove (g\<lparr>board := board1\<rparr>) of
        None \<Rightarrow> None
      | Some g1 \<Rightarrow> Some (True, g1)))))"

text \<open>
  \<^verbatim>\<open>
  void aiMove() {
      if (over) return;
      auto [r,c] = ai.findBestMove(board);
      if (r>=0) {
          board.makeMove(r,c, Cell::O);
          checkGameState();
          if (!over) switchTurn();
      }
  }\<close>
  The first argument is the bound handed to the search.
\<close>

definition aiMove :: "nat \<Rightarrow> Game \<Rightarrow> Game option" where
  "aiMove fuel g =
     (if over g then Some g
      else
     (case findBestMove fuel (game_ai g) (board g) of
        None \<Rightarrow> None
      | Some (r, c) \<Rightarrow>
          if r \<ge> 0
          then (case makeMove (board g) r c O' of
                  None \<Rightarrow> None
                | Some (_, board1) \<Rightarrow> finishMove (g\<lparr>board := board1\<rparr>))
          else Some g))"

text \<open>\<^verbatim>\<open>void setMode(Mode m) { mode = m; }\<close>\<close>

definition setMode :: "Game \<Rightarrow> Mode \<Rightarrow> Game" where
  "setMode g m = g\<lparr>mode := m\<rparr>"

text \<open>
  The one caller of \<open>setMode\<close>, in class \<open>GUI\<close>:
  \<^verbatim>\<open>
  void toggleMode() {
      if (game.getMode() == Game::Mode::HumanVsHuman) game.setMode(Game::Mode::HumanVsAI);
      else game.setMode(Game::Mode::HumanVsHuman);
      game.restart();
  }\<close>
\<close>

definition toggleMode :: "Game \<Rightarrow> Game" where
  "toggleMode g =
     restart (if mode g = HumanVsHuman then setMode g HumanVsAI else setMode g HumanVsHuman)"

text \<open>
  The states a session can be in: from the constructor's state, any sequence of
  \<open>playMove\<close> with both indices in \<open>[0,3)\<close>, \<open>aiMove\<close> and \<open>restart\<close>, each call being a
  defined run.
\<close>

inductive reachable :: "Game \<Rightarrow> bool" where
  reach_init: "reachable Game_init"
| reach_play:
    "reachable g \<Longrightarrow> 0 \<le> r \<Longrightarrow> r < SIZE \<Longrightarrow> 0 \<le> c \<Longrightarrow> c < SIZE
       \<Longrightarrow> playMove g r c = Some (ok, g') \<Longrightarrow> reachable g'"
| reach_ai: "reachable g \<Longrightarrow> aiMove fuel g = Some g' \<Longrightarrow> reachable g'"
| reach_restart: "reachable g \<Longrightarrow> reachable (restart g)"

section \<open>The lines of the grid, as the specification lists them\<close>

text \<open>
  The eight lines of \<open>checkWinner\<close> as triples of cell offsets: the three rows, the three
  columns, the two diagonals, in the order of the scan.
\<close>

definition win_lines :: "(nat \<times> nat \<times> nat) list" where
  "win_lines =
     [(0, 1, 2), (3, 4, 5), (6, 7, 8)] @ [(0, 3, 6), (1, 4, 7), (2, 5, 8)] @ [(0, 4, 8), (2, 4, 6)]"

definition line_complete :: "Board \<Rightarrow> nat \<times> nat \<times> nat \<Rightarrow> bool" where
  "line_complete cells l =
     (case l of (i, j, k) \<Rightarrow> cells ! i \<noteq> Empty \<and> cells ! i = cells ! j \<and> cells ! i = cells ! k)"

section \<open>The invariant of a session\<close>

text \<open>
  While a session is not over its board has no winner and an empty cell, and no winner
  is stored; a stored winner means the session is over.
\<close>

definition session_inv :: "Game \<Rightarrow> bool" where
  "session_inv g =
     ((\<not> over g \<longrightarrow> checkWinner (board g) = None \<and> \<not> isFull (board g) \<and> winnerOpt g = None)
      \<and> (winnerOpt g \<noteq> None \<longrightarrow> over g))"

section \<open>Notions used to state the properties of the search\<close>

text \<open>The number of empty cells: it bounds the depth of the search.\<close>

definition count_empty :: "Board \<Rightarrow> nat" where
  "count_empty cells = length (filter (\<lambda>v. v = Empty) cells)"

text \<open>The board after the mark \<open>player\<close> is written to the cell of move \<open>m\<close>.\<close>

definition place :: "Board \<Rightarrow> int \<times> int \<Rightarrow> Cell \<Rightarrow> Board" where
  "place cells m player = cells[nat (fst m * SIZE + snd m) := player]"

text \<open>The nine cells in the order of the scan of \<open>availableMoves\<close>, row by row.\<close>

definition all_cells :: "(int \<times> int) list" where
  "all_cells = [(0, 0), (0, 1), (0, 2), (1, 0), (1, 1), (1, 2), (2, 0), (2, 1), (2, 2)]"

text \<open>The score a call of \<open>minimax\<close> returned (0 for a call that did not return).\<close>

definition score_of :: "(int \<times> Board) option \<Rightarrow> int" where
  "score_of res = (case res of Some (score, _) \<Rightarrow> score | None \<Rightarrow> 0)"

text \<open>
  The score of the recursive call that \<open>minimax\<close> makes for move \<open>m\<close>: the mover's mark
  placed on \<open>m\<close>, one level deeper, the other player to move.
\<close>

definition child_score :: "nat \<Rightarrow> AI \<Rightarrow> Board \<Rightarrow> int \<Rightarrow> bool \<Rightarrow> int \<times> int \<Rightarrow> int" where
  "child_score fuel a cells depth isMaximizing m =
     score_of (minimax fuel a (place cells m (if isMaximizing then ai a else human a))
                 (depth + 1) (\<not> isMaximizing))"

text \<open>The score \<open>findBestMove\<close> gets for move \<open>m\<close>: \<open>minimax(board, 0, false)\<close> after the AI's mark.\<close>

definition root_score :: "nat \<Rightarrow> AI \<Rightarrow> Board \<Rightarrow> int \<times> int \<Rightarrow> int" where
  "root_score fuel a cells m = score_of (minimax fuel a (place cells m (ai a)) 0 False)"

text \<open>
  The choice \<open>findBestMove\<close>'s loop makes over scores \<open>f\<close>: a move replaces the best one
  so far only when its score is strictly greater.
\<close>

fun first_best :: "('m \<Rightarrow> int) \<Rightarrow> 'm list \<Rightarrow> int \<Rightarrow> 'm \<Rightarrow> 'm" where
  "first_best f [] bestScore bestMove = bestMove"
| "first_best f (m # ms) bestScore bestMove =
     (if f m > bestScore then first_best f ms (f m) m
      else first_best f ms bestScore bestMove)"

section \<open>Properties of the Board\<close>

lemma cell_index_in_range:
  "0 \<le> r \<Longrightarrow> r < SIZE \<Longrightarrow> 0 \<le> c \<Longrightarrow> c < SIZE \<Longrightarrow> cell_index r c = Some (nat (r * SIZE + c))"
  by (simp add: cell_index_def in_int_def INT_MIN_def INT_MAX_def)

lemma cell_index_inj:
  assumes "0 \<le> r" "r < SIZE" "0 \<le> c" "c < SIZE" "0 \<le> r'" "r' < SIZE" "0 \<le> c'" "c' < SIZE"
    and "nat (r * SIZE + c) = nat (r' * SIZE + c')"
  shows "r = r' \<and> c = c'"
proof -
  from assms have e: "r * 3 + c = r' * 3 + c'"
    by simp
  with assms(1-8) have "r = r'"
    by linarith
  with e show ?thesis
    by simp
qed

lemma find_append:
  "find P (xs @ ys) = (case find P xs of None \<Rightarrow> find P ys | Some x \<Rightarrow> Some x)"
  by (induction xs) simp_all

lemma find_map:
  "find P (map f xs) = map_option f (find (\<lambda>x. P (f x)) xs)"
  by (induction xs) simp_all

lemma find_rows:
  "find (line_complete cells) [(0, 1, 2), (3, 4, 5), (6, 7, 8)]
     = map_option (\<lambda>r. (r * 3, r * 3 + 1, r * 3 + 2)) (find (row_hit cells) [0, 1, 2])"
proof -
  have "[(0, 1, 2), (3, 4, 5), (6, 7, 8)] = map (\<lambda>r. (r * 3, r * 3 + 1, r * 3 + 2)) [0, 1, 2::nat]"
    by simp
  moreover have "(\<lambda>r. line_complete cells (r * 3, r * 3 + 1, r * 3 + 2)) = row_hit cells"
    by (simp add: line_complete_def row_hit_def fun_eq_iff)
  ultimately show ?thesis
    by (simp only: find_map)
qed

lemma find_cols:
  "find (line_complete cells) [(0, 3, 6), (1, 4, 7), (2, 5, 8)]
     = map_option (\<lambda>c. (c, 3 + c, 2 * 3 + c)) (find (col_hit cells) [0, 1, 2])"
proof -
  have "[(0, 3, 6), (1, 4, 7), (2, 5, 8)] = map (\<lambda>c. (c, 3 + c, 2 * 3 + c)) [0, 1, 2::nat]"
    by simp
  moreover have "(\<lambda>c. line_complete cells (c, 3 + c, 2 * 3 + c)) = col_hit cells"
    by (simp add: line_complete_def col_hit_def fun_eq_iff)
  ultimately show ?thesis
    by (simp only: find_map)
qed

lemma diag_complete:
  "line_complete cells (0, 4, 8)
     = (cells ! 0 \<noteq> Empty \<and> cells ! 0 = cells ! 4 \<and> cells ! 0 = cells ! 8)"
  "line_complete cells (2, 4, 6)
     = (cells ! 2 \<noteq> Empty \<and> cells ! 2 = cells ! 4 \<and> cells ! 2 = cells ! 6)"
  by (simp_all add: line_complete_def)

lemma find_diags:
  "(case find (line_complete cells) [(0, 4, 8), (2, 4, 6)] of
      None \<Rightarrow> None | Some (i, j, k) \<Rightarrow> Some (cells ! i))
   = (if line_complete cells (0, 4, 8) then Some (cells ! 0)
      else if line_complete cells (2, 4, 6) then Some (cells ! 2)
      else None)"
  by simp

lemma checkWinner_find:
  "checkWinner cells =
       (case find (line_complete cells) win_lines of
          None \<Rightarrow> None
        | Some (i, j, k) \<Rightarrow> Some (cells ! i))"
proof -
  define ro where "ro = find (row_hit cells) [0, 1, 2]"
  define co where "co = find (col_hit cells) [0, 1, 2]"
  define dg where "dg = find (line_complete cells) [(0, 4, 8), (2, 4, 6)]"
  have lhs: "checkWinner cells =
      (case ro of Some r \<Rightarrow> Some (cells ! (r * 3))
       | None \<Rightarrow> (case co of Some c \<Rightarrow> Some (cells ! c)
       | None \<Rightarrow> (case dg of None \<Rightarrow> None | Some (i, j, k) \<Rightarrow> Some (cells ! i))))"
    by (simp only: checkWinner_def ro_def co_def dg_def find_diags diag_complete)
  have rhs: "find (line_complete cells) win_lines =
      (case map_option (\<lambda>r. (r * 3, r * 3 + 1, r * 3 + 2)) ro of
         None \<Rightarrow> (case map_option (\<lambda>c. (c, 3 + c, 2 * 3 + c)) co of
                    None \<Rightarrow> dg | Some l \<Rightarrow> Some l)
       | Some l \<Rightarrow> Some l)"
    by (simp only: win_lines_def find_append find_rows find_cols ro_def co_def dg_def)
  show ?thesis
    unfolding lhs rhs by (cases ro; cases co; simp)
qed

text \<open>
  Claim C7. \<open>checkWinner\<close> looks at exactly eight lines (three rows, three columns, two
  diagonals). Its result is the mark on the first complete line in the order rows,
  columns, diagonals, whatever else the board holds, and it is \<open>None\<close> exactly when no
  line is complete.
\<close>

theorem checkWinner_first_line:
  "length win_lines = 8
   \<and> checkWinner cells =
       (case find (line_complete cells) win_lines of
          None \<Rightarrow> None
        | Some (i, j, k) \<Rightarrow> Some (cells ! i))
   \<and> (checkWinner cells = None \<longleftrightarrow> \<not> list_ex (line_complete cells) win_lines)"
proof -
  have "length win_lines = 8"
    by (simp add: win_lines_def)
  moreover have "(checkWinner cells = None) = (find (line_complete cells) win_lines = None)"
    unfolding checkWinner_find by (simp split: option.splits prod.splits)
  then have "checkWinner cells = None \<longleftrightarrow> \<not> list_ex (line_complete cells) win_lines"
    unfolding find_None_iff list_ex_iff by blast
  ultimately show ?thesis
    using checkWinner_find by blast
qed

text \<open>
  Claim C9. On a cell in range that is \<open>Empty\<close>, \<open>makeMove\<close> followed by \<open>undoMove\<close> on
  the same cell gives back the board it started from; and \<open>undoMove\<close> writes \<open>Empty\<close>
  whatever the cell of any board \<open>other\<close> holds.
\<close>

theorem makeMove_then_undoMove:
  assumes "length cells = 9" "0 \<le> r" "r < SIZE" "0 \<le> c" "c < SIZE"
    and "get cells r c = Some Empty"
  shows "(\<exists>cells'. makeMove cells r c player = Some (True, cells')
            \<and> undoMove cells' r c = Some cells)
         \<and> undoMove other r c = Some (other[nat (r * SIZE + c) := Empty])"
  using assms
  by (simp add: makeMove_def undoMove_def get_def cell_index_in_range list_update_same_conv)

theorem makeMove_then_undoMove_witness:
  "makeMove reset 1 1 X = Some (True, [Empty, Empty, Empty, Empty, X, Empty, Empty, Empty, Empty])
   \<and> undoMove [Empty, Empty, Empty, Empty, X, Empty, Empty, Empty, Empty] 1 1 = Some reset
   \<and> undoMove [X, X, O', O', O', X, X, O', X] 1 1 = Some [X, X, O', O', Empty, X, X, O', X]"
  using makeMove_then_undoMove [of reset 1 1 X "[X, X, O', O', O', X, X, O', X]"]
  by (simp add: reset_def get_def makeMove_def undoMove_def cell_index_def in_int_def INT_MIN_def INT_MAX_def
      eval_nat_numeral)

text \<open>
  Claim C4, as the code has it. With both indices in \<open>[0,3)\<close>, \<open>makeMove\<close> succeeds
  exactly when the target cell is \<open>Empty\<close>; a success writes the player's mark to that
  cell and leaves the eight others as they were, a failure leaves the whole board as
  it was.
\<close>

theorem makeMove_in_range:
  assumes "length cells = 9" "0 \<le> r" "r < SIZE" "0 \<le> c" "c < SIZE"
  shows "\<exists>ok cells'. makeMove cells r c player = Some (ok, cells')
           \<and> length cells' = 9
           \<and> (ok \<longleftrightarrow> get cells r c = Some Empty)
           \<and> (if ok then get cells' r c = Some player else cells' = cells)
           \<and> (\<forall>r' c'. 0 \<le> r' \<and> r' < SIZE \<and> 0 \<le> c' \<and> c' < SIZE \<and> (r', c') \<noteq> (r, c)
                 \<longrightarrow> get cells' r' c' = get cells r' c')"
proof (cases "cells ! nat (r * SIZE + c) = Empty")
  case True
  have "nat (r * SIZE + c) < length cells"
    using assms by simp
  moreover have "nat (r * SIZE + c) \<noteq> nat (r' * SIZE + c')"
    if "0 \<le> r'" "r' < SIZE" "0 \<le> c'" "c' < SIZE" "(r', c') \<noteq> (r, c)" for r' c'
    using cell_index_inj [OF assms(2-5) that(1-4)] that(5) by blast
  ultimately show ?thesis
    using True assms
    by (intro exI [of _ True] exI [of _ "cells[nat (r * SIZE + c) := player]"])
       (simp add: makeMove_def get_def cell_index_in_range)
next
  case False
  then show ?thesis
    using assms
    by (intro exI [of _ False] exI [of _ cells])
       (simp add: makeMove_def get_def cell_index_in_range)
qed

theorem makeMove_in_range_witness:
  "\<exists>ok cells'. makeMove reset 1 1 X = Some (ok, cells')
     \<and> length cells' = 9
     \<and> (ok \<longleftrightarrow> get reset 1 1 = Some Empty)
     \<and> (if ok then get cells' 1 1 = Some X else cells' = reset)
     \<and> (\<forall>r' c'. 0 \<le> r' \<and> r' < SIZE \<and> 0 \<le> c' \<and> c' < SIZE \<and> (r', c') \<noteq> (1, 1)
           \<longrightarrow> get cells' r' c' = get reset r' c')"
proof -
  have "length reset = 9"
    by (simp add: reset_def)
  then show ?thesis
    using makeMove_in_range [of reset 1 1 X] by simp
qed

text \<open>
  The Board tests no index. On the empty board \<open>makeMove(0, 3, X)\<close>, whose column is
  outside \<open>[0,3)\<close>, is not rejected: it returns \<open>true\<close> and marks offset 3, the cell
  \<open>(1, 0)\<close>.
\<close>

theorem makeMove_out_of_range_counterexample:
  "makeMove [Empty, Empty, Empty, Empty, Empty, Empty, Empty, Empty, Empty] 0 3 X
     = Some (True, [Empty, Empty, Empty, X, Empty, Empty, Empty, Empty, Empty])"
  by (simp add: makeMove_def cell_index_def in_int_def INT_MIN_def INT_MAX_def eval_nat_numeral)

lemma find_Some_holds: "find P xs = Some x \<Longrightarrow> P x \<and> x \<in> set xs"
  by (induction xs) (auto split: if_splits)

lemma checkWinner_not_Empty: "checkWinner cells = Some w \<Longrightarrow> w \<noteq> Empty"
  unfolding checkWinner_find
  by (auto simp: line_complete_def split: option.splits dest!: find_Some_holds)

lemma checkWinner_None_iff:
  "checkWinner cells = None \<longleftrightarrow> \<not> list_ex (line_complete cells) win_lines"
proof -
  have "(checkWinner cells = None) = (find (line_complete cells) win_lines = None)"
    unfolding checkWinner_find by (simp split: option.splits prod.splits)
  then show ?thesis
    unfolding find_None_iff list_ex_iff by blast
qed

section \<open>Properties of the session\<close>

text \<open>
  Claim C8, as the code has it. \<open>restart\<close> empties the board, clears the terminal flag
  and the winner and gives the turn to \<open>X\<close>; both counters, the mode and the AI keep
  their values. \<open>setMode\<close> writes the mode and nothing else. The restart on a change of
  mode is made by the caller \<open>GUI::toggleMode\<close>, which calls \<open>setMode\<close> with the other
  mode and then \<open>restart\<close>: after it the board is empty, the session is in progress with
  \<open>X\<close> to move, and both counters are as before.
\<close>

theorem restart_keeps_scores:
  "board (restart g) = replicate 9 Empty
   \<and> over (restart g) = False \<and> winnerOpt (restart g) = None \<and> current (restart g) = X
   \<and> scoreX (restart g) = scoreX g \<and> scoreO (restart g) = scoreO g
   \<and> mode (restart g) = mode g \<and> game_ai (restart g) = game_ai g
   \<and> setMode g m = g\<lparr>mode := m\<rparr>
   \<and> toggleMode g
        = restart (setMode g (if mode g = HumanVsHuman then HumanVsAI else HumanVsHuman))
   \<and> mode (toggleMode g) \<noteq> mode g
   \<and> board (toggleMode g) = replicate 9 Empty
   \<and> over (toggleMode g) = False \<and> winnerOpt (toggleMode g) = None
   \<and> current (toggleMode g) = X
   \<and> scoreX (toggleMode g) = scoreX g \<and> scoreO (toggleMode g) = scoreO g"
  by (cases "mode g") (simp_all add: restart_def reset_def setMode_def toggleMode_def)

text \<open>
  \<open>setMode\<close> on a session with a mark on the board and \<open>O\<close> to move: the mark and the
  turn stay, no restart happens.
\<close>

theorem setMode_alone_counterexample:
  "setMode \<lparr>board = [X, Empty, Empty, Empty, Empty, Empty, Empty, Empty, Empty],
            current = O', mode = HumanVsAI, game_ai = \<lparr>ai = O', human = X\<rparr>,
            over = False, winnerOpt = None, scoreX = 0, scoreO = 0\<rparr> HumanVsHuman
   = \<lparr>board = [X, Empty, Empty, Empty, Empty, Empty, Empty, Empty, Empty],
      current = O', mode = HumanVsHuman, game_ai = \<lparr>ai = O', human = X\<rparr>,
      over = False, winnerOpt = None, scoreX = 0, scoreO = 0\<rparr>"
  by (simp add: setMode_def)

lemma finishMove_inv:
  assumes "finishMove g = Some g'" "\<not> over g" "winnerOpt g = None"
  shows "session_inv g'"
  using assms
  by (auto simp: finishMove_def checkGameState_def switchTurn_def session_inv_def
      split: option.splits if_splits)

lemma playMove_inv:
  assumes "playMove g r c = Some (ok, g')" "session_inv g"
  shows "session_inv g'"
proof (cases "over g")
  case True
  with assms show ?thesis
    by (simp add: playMove_def)
next
  case False
  with assms(2) have w: "winnerOpt g = None"
    by (simp add: session_inv_def)
  show ?thesis
  proof (cases "g' = g")
    case True
    with assms(2) show ?thesis by simp
  next
    case ne: False
    with assms(1) False obtain board1 where "finishMove (g\<lparr>board := board1\<rparr>) = Some g'"
      by (auto simp: playMove_def split: option.splits if_splits)
    then show ?thesis
      using False w by (intro finishMove_inv [of "g\<lparr>board := board1\<rparr>"]) simp_all
  qed
qed

lemma aiMove_inv:
  assumes "aiMove fuel g = Some g'" "session_inv g"
  shows "session_inv g'"
proof (cases "g' = g")
  case True
  with assms(2) show ?thesis by simp
next
  case ne: False
  with assms(1) have no: "\<not> over g"
    by (auto simp: aiMove_def split: if_splits)
  with assms(2) have w: "winnerOpt g = None"
    by (simp add: session_inv_def)
  from assms(1) ne no obtain board1 where "finishMove (g\<lparr>board := board1\<rparr>) = Some g'"
    by (auto simp: aiMove_def split: option.splits if_splits prod.splits)
  then show ?thesis
    using no w by (intro finishMove_inv [of "g\<lparr>board := board1\<rparr>"]) simp_all
qed

lemma init_inv: "session_inv Game_init"
  by (simp add: session_inv_def Game_init_def reset_def checkWinner_def row_hit_def col_hit_def
      isFull_def eval_nat_numeral)

lemma restart_inv: "session_inv (restart g)"
  by (simp add: session_inv_def restart_def reset_def checkWinner_def row_hit_def col_hit_def
      isFull_def eval_nat_numeral)

text \<open>
  Claim C10. In every state reached from the constructor's state by \<open>playMove\<close> with
  indices in range, \<open>aiMove\<close> and \<open>restart\<close>: a session that is not over has a board with
  no complete line and an empty cell and stores no winner, and a stored winner means
  the session is over.
\<close>

theorem reachable_session_inv:
  assumes "reachable g"
  shows "(\<not> over g \<longrightarrow>
            checkWinner (board g) = None
            \<and> \<not> list_ex (line_complete (board g)) win_lines
            \<and> \<not> isFull (board g) \<and> winnerOpt g = None)
         \<and> (winnerOpt g \<noteq> None \<longrightarrow> over g)"
proof -
  from assms have "session_inv g"
  proof (induction rule: reachable.induct)
    case reach_init
    show ?case by (rule init_inv)
  next
    case (reach_play g r c ok g')
    then show ?case by (blast intro: playMove_inv)
  next
    case (reach_ai g fuel g')
    then show ?case by (blast intro: aiMove_inv)
  next
    case (reach_restart g)
    show ?case by (rule restart_inv)
  qed
  then show ?thesis
    using checkWinner_None_iff [of "board g"] by (simp add: session_inv_def)
qed




theorem reachable_session_inv_witness:
  "reachable \<lparr>board = [Empty, Empty, Empty, Empty, X, Empty, Empty, Empty, Empty],
              current = O', mode = HumanVsAI, game_ai = \<lparr>ai = O', human = X\<rparr>,
              over = False, winnerOpt = None, scoreX = 0, scoreO = 0\<rparr>
   \<and> checkWinner [Empty, Empty, Empty, Empty, X, Empty, Empty, Empty, Empty] = None
   \<and> \<not> list_ex (line_complete [Empty, Empty, Empty, Empty, X, Empty, Empty, Empty, Empty])
         win_lines
   \<and> \<not> isFull [Empty, Empty, Empty, Empty, X, Empty, Empty, Empty, Empty]"
proof -
  let ?g = "\<lparr>board = [Empty, Empty, Empty, Empty, X, Empty, Empty, Empty, Empty],
              current = O', mode = HumanVsAI, game_ai = \<lparr>ai = O', human = X\<rparr>,
              over = False, winnerOpt = None, scoreX = 0, scoreO = 0\<rparr>"
  have p: "playMove Game_init 1 1 = Some (True, ?g)"
    by (simp add: playMove_def Game_init_def reset_def get_def makeMove_def cell_index_def
        in_int_def INT_MIN_def INT_MAX_def finishMove_def checkGameState_def checkWinner_def
        row_hit_def col_hit_def isFull_def switchTurn_def eval_nat_numeral)
  have r: "reachable ?g"
    by (rule reach_play [OF reach_init _ _ _ _ p]) simp_all
  show ?thesis
    using r reachable_session_inv [OF r] by simp
qed

lemma finishMove_result:
  assumes "in_int (scoreX g + 1)" "in_int (scoreO g + 1)" "\<not> over g"
  shows "\<exists>g'. finishMove g = Some g'
            \<and> board g' = board g
            \<and> over g' = (checkWinner (board g) \<noteq> None \<or> isFull (board g))
            \<and> winnerOpt g' = (if over g' then checkWinner (board g) else winnerOpt g)
            \<and> current g' = (if over g' then current g else if current g = X then O' else X)
            \<and> scoreX g' = scoreX g + (if checkWinner (board g) = Some X then 1 else 0)
            \<and> scoreO g' = scoreO g
                 + (if checkWinner (board g) \<notin> {None, Some X} then 1 else 0)
            \<and> mode g' = mode g \<and> game_ai g' = game_ai g"
proof (cases "checkWinner (board g)")
  case None
  then show ?thesis
    using assms(3)
    by (cases "isFull (board g)") (simp_all add: finishMove_def checkGameState_def switchTurn_def)
next
  case (Some w)
  then show ?thesis
    using assms
    by (cases "w = X") (simp_all add: finishMove_def checkGameState_def)
qed

lemma playMove_rejects:
  assumes "0 \<le> r" "r < SIZE" "0 \<le> c" "c < SIZE"
    and "over g \<or> get (board g) r c \<noteq> Some Empty"
  shows "playMove g r c = Some (False, g)"
  using assms by (auto simp: playMove_def get_def cell_index_in_range)

lemma playMove_accepts:
  assumes "0 \<le> r" "r < SIZE" "0 \<le> c" "c < SIZE"
    and "\<not> over g" "get (board g) r c = Some Empty"
  shows "playMove g r c
           = map_option (Pair True)
               (finishMove (g\<lparr>board := (board g)[nat (r * SIZE + c) := current g]\<rparr>))"
  using assms
  by (simp add: playMove_def get_def makeMove_def cell_index_in_range split: option.splits)

text \<open>
  Claim C5, as the code has it. With both indices in \<open>[0,3)\<close>: \<open>playMove\<close> returns
  \<open>false\<close> and leaves the whole session as it was when the session is over or the
  target cell is occupied. Otherwise it returns \<open>true\<close>; the current player's mark is
  on the target cell; the session is over exactly when the new board has a winner or
  is full, the winner stored then being the one \<open>checkWinner\<close> reports and that
  player's counter being one higher; and the turn passes to the other player exactly
  when the session is not over. (The counters are assumed below \<open>INT_MAX\<close>.)
\<close>

theorem playMove_in_range:
  assumes "length (board g) = 9" "0 \<le> r" "r < SIZE" "0 \<le> c" "c < SIZE"
    and "in_int (scoreX g + 1)" "in_int (scoreO g + 1)"
  shows "(over g \<or> get (board g) r c \<noteq> Some Empty \<longrightarrow> playMove g r c = Some (False, g))
     \<and> (\<not> over g \<and> get (board g) r c = Some Empty \<longrightarrow>
         (\<exists>g'. playMove g r c = Some (True, g')
            \<and> board g' = (board g)[nat (r * SIZE + c) := current g]
            \<and> over g' = (checkWinner (board g') \<noteq> None \<or> isFull (board g'))
            \<and> winnerOpt g' = (if over g' then checkWinner (board g') else winnerOpt g)
            \<and> current g' = (if over g' then current g else if current g = X then O' else X)
            \<and> scoreX g' = scoreX g + (if checkWinner (board g') = Some X then 1 else 0)
            \<and> scoreO g' = scoreO g
                 + (if checkWinner (board g') \<notin> {None, Some X} then 1 else 0)
            \<and> mode g' = mode g \<and> game_ai g' = game_ai g))"
proof (intro conjI impI)
  assume "over g \<or> get (board g) r c \<noteq> Some Empty"
  then show "playMove g r c = Some (False, g)"
    using assms(2-5) by (rule playMove_rejects [rotated 4])
next
  assume a: "\<not> over g \<and> get (board g) r c = Some Empty"
  let ?g1 = "g\<lparr>board := (board g)[nat (r * SIZE + c) := current g]\<rparr>"
  have "in_int (scoreX ?g1 + 1)" "in_int (scoreO ?g1 + 1)" "\<not> over ?g1"
    using assms(6,7) a by simp_all
  from finishMove_result [OF this] obtain g' where
    f: "finishMove ?g1 = Some g'" and b: "board g' = board ?g1"
    and rest: "over g' = (checkWinner (board ?g1) \<noteq> None \<or> isFull (board ?g1))"
      "winnerOpt g' = (if over g' then checkWinner (board ?g1) else winnerOpt ?g1)"
      "current g' = (if over g' then current ?g1 else if current ?g1 = X then O' else X)"
      "scoreX g' = scoreX ?g1 + (if checkWinner (board ?g1) = Some X then 1 else 0)"
      "scoreO g' = scoreO ?g1 + (if checkWinner (board ?g1) \<notin> {None, Some X} then 1 else 0)"
      "mode g' = mode ?g1" "game_ai g' = game_ai ?g1"
    by blast
  have "playMove g r c = Some (True, g')"
    using playMove_accepts [OF assms(2-5), of g] a f by simp
  then show "\<exists>g'. playMove g r c = Some (True, g')
            \<and> board g' = (board g)[nat (r * SIZE + c) := current g]
            \<and> over g' = (checkWinner (board g') \<noteq> None \<or> isFull (board g'))
            \<and> winnerOpt g' = (if over g' then checkWinner (board g') else winnerOpt g)
            \<and> current g' = (if over g' then current g else if current g = X then O' else X)
            \<and> scoreX g' = scoreX g + (if checkWinner (board g') = Some X then 1 else 0)
            \<and> scoreO g' = scoreO g
                 + (if checkWinner (board g') \<notin> {None, Some X} then 1 else 0)
            \<and> mode g' = mode g \<and> game_ai g' = game_ai g"
    using b rest by (intro exI [of _ g']) simp
qed

theorem playMove_in_range_witness:
  "\<exists>g'. playMove Game_init 1 1 = Some (True, g')
      \<and> board g' = (board Game_init)[nat (1 * SIZE + 1) := current Game_init]
      \<and> over g' = (checkWinner (board g') \<noteq> None \<or> isFull (board g'))
      \<and> winnerOpt g' = (if over g' then checkWinner (board g') else winnerOpt Game_init)
      \<and> current g'
           = (if over g' then current Game_init else if current Game_init = X then O' else X)
      \<and> scoreX g' = scoreX Game_init + (if checkWinner (board g') = Some X then 1 else 0)
      \<and> mode g' = mode Game_init \<and> game_ai g' = game_ai Game_init"
proof -
  have h: "length (board Game_init) = 9" "(0::int) \<le> 1" "(1::int) < SIZE"
    "in_int (scoreX Game_init + 1)" "in_int (scoreO Game_init + 1)"
    by (simp_all add: Game_init_def reset_def in_int_def INT_MIN_def INT_MAX_def)
  have a: "\<not> over Game_init \<and> get (board Game_init) 1 1 = Some Empty"
    by (simp add: Game_init_def reset_def get_def cell_index_def in_int_def INT_MIN_def
        INT_MAX_def)
  from playMove_in_range [OF h(1,2,3,2,3,4,5)] a show ?thesis
    by blast
qed

text \<open>
  \<open>playMove\<close> tests no index either. On the new session \<open>playMove(0, 3)\<close> returns
  \<open>true\<close>, marks offset 3, the cell \<open>(1, 0)\<close>, and passes the turn.
\<close>

theorem playMove_out_of_range_counterexample:
  "playMove Game_init 0 3
     = Some (True, \<lparr>board = [Empty, Empty, Empty, X, Empty, Empty, Empty, Empty, Empty],
                    current = O', mode = HumanVsAI, game_ai = \<lparr>ai = O', human = X\<rparr>,
                    over = False, winnerOpt = None, scoreX = 0, scoreO = 0\<rparr>)"
  by (simp add: playMove_def Game_init_def reset_def get_def makeMove_def cell_index_def
      in_int_def INT_MIN_def INT_MAX_def finishMove_def checkGameState_def checkWinner_def
      row_hit_def col_hit_def isFull_def switchTurn_def eval_nat_numeral)

section \<open>Properties of the search\<close>

lemma availableMoves_filter:
  "availableMoves cells = filter (\<lambda>m. cells ! nat (fst m * SIZE + snd m) = Empty) all_cells"
  by (simp add: availableMoves_def all_cells_def)

lemma availableMoves_valid:
  assumes "m \<in> set (availableMoves cells)"
  shows "0 \<le> fst m \<and> fst m < SIZE \<and> 0 \<le> snd m \<and> snd m < SIZE
         \<and> cells ! nat (fst m * SIZE + snd m) = Empty"
proof -
  from assms have "m \<in> set all_cells" and e: "cells ! nat (fst m * SIZE + snd m) = Empty"
    unfolding availableMoves_filter set_filter by simp_all
  then have "0 \<le> fst m \<and> fst m < SIZE \<and> 0 \<le> snd m \<and> snd m < SIZE"
    by (auto simp: all_cells_def)
  with e show ?thesis
    by simp
qed

lemma count_empty_update:
  assumes "i < length cells" "cells ! i = Empty" "player \<noteq> Empty"
  shows "Suc (count_empty (cells[i := player])) = count_empty cells"
  using assms unfolding count_empty_def
proof (induction cells arbitrary: i)
  case Nil
  then show ?case by simp
next
  case (Cons v vs)
  then show ?case by (cases i) auto
qed

lemma count_empty_le: "count_empty cells \<le> length cells"
  by (simp add: count_empty_def)

lemma isFull_count: "isFull cells \<longleftrightarrow> count_empty cells = 0"
  by (auto simp: isFull_def count_empty_def list_ex_iff filter_empty_conv)

lemma nth_all_cells:
  assumes "i < 9"
  shows "\<exists>m \<in> set all_cells. nat (fst m * SIZE + snd m) = i"
proof -
  from assms have "i \<in> {0, 1, 2, 3, 4, 5, 6, 7, 8}"
    by auto
  then show ?thesis
    by (auto simp: all_cells_def)
qed

lemma isFull_moves:
  assumes "length cells = 9"
  shows "isFull cells \<longleftrightarrow> availableMoves cells = []"
proof
  assume "isFull cells"
  then have "cells ! i \<noteq> Empty" if "i < 9" for i
  proof -
    have "cells ! i \<in> set cells"
      using assms that by (intro nth_mem) simp
    with \<open>isFull cells\<close> show ?thesis
      by (auto simp: isFull_def list_ex_iff)
  qed
  then have "cells ! nat (fst m * SIZE + snd m) \<noteq> Empty" if "m \<in> set all_cells" for m
    using that by (auto simp: all_cells_def)
  then show "availableMoves cells = []"
    unfolding availableMoves_filter filter_empty_conv by blast
next
  assume e: "availableMoves cells = []"
  have "v \<noteq> Empty" if "v \<in> set cells" for v
  proof -
    from that obtain i where i: "i < 9" "cells ! i = v"
      using assms by (metis in_set_conv_nth)
    from nth_all_cells [OF i(1)] obtain m where "m \<in> set all_cells"
      "nat (fst m * SIZE + snd m) = i" by blast
    with e i(2) show ?thesis
      unfolding availableMoves_filter by (auto simp: filter_empty_conv)
  qed
  then show "isFull cells"
    by (auto simp: isFull_def list_ex_iff)
qed

lemma makeMove_available:
  assumes "m \<in> set (availableMoves cells)"
  shows "makeMove cells (fst m) (snd m) player = Some (True, place cells m player)"
  using availableMoves_valid [OF assms]
  by (simp add: makeMove_def place_def cell_index_in_range)

lemma undoMove_available:
  assumes "m \<in> set (availableMoves cells)"
  shows "undoMove (place cells m player) (fst m) (snd m) = Some cells"
proof -
  from availableMoves_valid [OF assms]
  have "cells[nat (fst m * SIZE + snd m) := Empty] = cells"
    using list_update_id [of cells "nat (fst m * SIZE + snd m)"] by simp
  then show ?thesis
    using availableMoves_valid [OF assms]
    by (simp add: undoMove_def place_def cell_index_in_range)
qed

lemma place_available:
  assumes "m \<in> set (availableMoves cells)" "length cells = 9" "player \<noteq> Empty"
  shows "length (place cells m player) = 9"
    and "Suc (count_empty (place cells m player)) = count_empty cells"
proof -
  from availableMoves_valid [OF assms(1)] have "nat (fst m * SIZE + snd m) < length cells"
    "cells ! nat (fst m * SIZE + snd m) = Empty"
    using assms(2) by auto
  then show "Suc (count_empty (place cells m player)) = count_empty cells"
    unfolding place_def using assms(3) by (rule count_empty_update)
  show "length (place cells m player) = 9"
    using assms(2) by (simp add: place_def)
qed

lemma fold_max_Max:
  fixes f :: "'a \<Rightarrow> int"
  shows "fold (\<lambda>m acc. max acc (f m)) ms best = Max (insert best (f ` set ms))"
proof (induction ms arbitrary: best)
  case Nil
  show ?case by simp
next
  case (Cons m ms)
  have "Max (insert (max best (f m)) (f ` set ms)) = Max (insert best (insert (f m) (f ` set ms)))"
    by (cases "ms = []") (simp_all add: max.assoc)
  with Cons show ?case
    by simp
qed

lemma fold_min_Min:
  fixes f :: "'a \<Rightarrow> int"
  shows "fold (\<lambda>m acc. min acc (f m)) ms best = Min (insert best (f ` set ms))"
proof (induction ms arbitrary: best)
  case Nil
  show ?case by simp
next
  case (Cons m ms)
  have "Min (insert (min best (f m)) (f ` set ms)) = Min (insert best (insert (f m) (f ` set ms)))"
    by (cases "ms = []") (simp_all add: min.assoc)
  with Cons show ?case
    by simp
qed

lemma minimax_loop_fold:
  assumes "set ms \<subseteq> set (availableMoves cells)" "in_int (depth + 1)"
    and "\<And>m. m \<in> set ms \<Longrightarrow>
           \<exists>s. minimax fuel a (place cells m (if isMaximizing then ai a else human a))
                  (depth + 1) (\<not> isMaximizing)
                = Some (s, place cells m (if isMaximizing then ai a else human a))"
  shows "minimax_loop fuel a depth isMaximizing ms best cells
           = Some (fold (\<lambda>m acc. if isMaximizing
                                  then max acc (child_score fuel a cells depth isMaximizing m)
                                  else min acc (child_score fuel a cells depth isMaximizing m))
                     ms best, cells)"
  using assms
proof (induction ms arbitrary: best)
  case Nil
  show ?case by simp
next
  case (Cons m ms)
  let ?p = "if isMaximizing then ai a else human a"
  from Cons.prems(1) have av: "m \<in> set (availableMoves cells)"
    by simp
  from Cons.prems(3) [of m] obtain s where
    s: "minimax fuel a (place cells m ?p) (depth + 1) (\<not> isMaximizing) = Some (s, place cells m ?p)"
    by auto
  then have cs: "child_score fuel a cells depth isMaximizing m = s"
    by (simp add: child_score_def score_of_def)
  have rest: "minimax_loop fuel a depth isMaximizing ms best' cells
           = Some (fold (\<lambda>m acc. if isMaximizing
                                  then max acc (child_score fuel a cells depth isMaximizing m)
                                  else min acc (child_score fuel a cells depth isMaximizing m))
                     ms best', cells)" for best'
    using Cons.prems by (intro Cons.IH) auto
  show ?case
    using Cons.prems(2) s cs
      rest [of "max best s"] rest [of "min best s"]
    by (cases isMaximizing)
       (simp_all add: makeMove_available [OF av] undoMove_available [OF av])
qed


lemma scoreForWinner_bounds: "- 10 \<le> scoreForWinner a w \<and> scoreForWinner a w \<le> 10"
  by (simp add: scoreForWinner_def)

lemma Max_insert_low:
  fixes S :: "int set"
  assumes "finite S" "S \<noteq> {}" "\<And>x. x \<in> S \<Longrightarrow> lo \<le> x"
  shows "Max (insert lo S) = Max S"
proof -
  have "lo \<le> Max S"
    using assms by (auto simp: Max_ge_iff)
  then show ?thesis
    using assms(1,2) by (simp add: max_absorb2)
qed

lemma Min_insert_high:
  fixes S :: "int set"
  assumes "finite S" "S \<noteq> {}" "\<And>x. x \<in> S \<Longrightarrow> x \<le> hi"
  shows "Min (insert hi S) = Min S"
proof -
  have "Min S \<le> hi"
    using assms by (auto simp: Min_le_iff)
  then show ?thesis
    using assms(1,2) by (simp add: min_absorb2)
qed

lemma minimax_step:
  assumes children: "\<And>m. m \<in> set (availableMoves cells) \<Longrightarrow>
           \<exists>s. minimax fuel a (place cells m (if isMaximizing then ai a else human a))
                  (depth + 1) (\<not> isMaximizing)
                = Some (s, place cells m (if isMaximizing then ai a else human a))
              \<and> - 10 \<le> s \<and> s \<le> 10"
    and nt: "checkWinner cells = None" "\<not> isFull cells"
    and wf: "length cells = 9" "in_int (depth + 1)"
  shows "minimax (Suc fuel) a cells depth isMaximizing
           = Some ((if isMaximizing then Max else Min)
                     (child_score fuel a cells depth isMaximizing ` set (availableMoves cells)),
                   cells)"
proof -
  let ?ms = "availableMoves cells"
  let ?S = "child_score fuel a cells depth isMaximizing ` set ?ms"
  have c': "\<exists>s. minimax fuel a (place cells m (if isMaximizing then ai a else human a))
                  (depth + 1) (\<not> isMaximizing)
                = Some (s, place cells m (if isMaximizing then ai a else human a))"
    if "m \<in> set ?ms" for m
    using children [OF that] by blast
  have loop: "minimax_loop fuel a depth isMaximizing ?ms best cells
           = Some (fold (\<lambda>m acc. if isMaximizing
                                  then max acc (child_score fuel a cells depth isMaximizing m)
                                  else min acc (child_score fuel a cells depth isMaximizing m))
                     ?ms best, cells)" for best
    by (rule minimax_loop_fold [OF subset_refl wf(2) c'])
  have S: "finite ?S" "?S \<noteq> {}"
    using nt(2) isFull_moves [OF wf(1)] by simp_all
  have cb: "- 10 \<le> child_score fuel a cells depth isMaximizing m
      \<and> child_score fuel a cells depth isMaximizing m \<le> 10" if "m \<in> set ?ms" for m
  proof -
    from children [OF that] obtain s where
      "minimax fuel a (place cells m (if isMaximizing then ai a else human a))
         (depth + 1) (\<not> isMaximizing)
       = Some (s, place cells m (if isMaximizing then ai a else human a))"
      "- 10 \<le> s" "s \<le> 10"
      by blast
    then show ?thesis
      by (simp add: child_score_def score_of_def)
  qed
  have b: "- 10 \<le> x \<and> x \<le> 10" if "x \<in> ?S" for x
    using that cb by blast
  show ?thesis
  proof (cases isMaximizing)
    case True
    have "INT_MIN \<le> x" if "x \<in> ?S" for x
      using b [OF that] by (simp add: INT_MIN_def)
    with S have "Max (insert INT_MIN ?S) = Max ?S"
      by (intro Max_insert_low)
    then show ?thesis
      using True nt loop [of INT_MIN] by (simp add: fold_max_Max)
  next
    case False
    have "x \<le> INT_MAX" if "x \<in> ?S" for x
      using b [OF that] by (simp add: INT_MAX_def)
    with S have "Min (insert INT_MAX ?S) = Min ?S"
      by (intro Min_insert_high)
    then show ?thesis
      using False nt loop [of INT_MAX] by (simp add: fold_min_Min)
  qed
qed

lemma minimax_returns:
  assumes "ai a \<noteq> Empty" "human a \<noteq> Empty"
    and "length cells = 9" "count_empty cells < fuel"
    and "INT_MIN \<le> depth" "depth + int (count_empty cells) \<le> INT_MAX"
  shows "\<exists>s. minimax fuel a cells depth isMaximizing = Some (s, cells) \<and> - 10 \<le> s \<and> s \<le> 10"
  using assms(3-)
proof (induction fuel arbitrary: cells depth isMaximizing)
  case 0
  then show ?case by simp
next
  case (Suc fuel)
  show ?case
  proof (cases "checkWinner cells")
    case (Some w)
    then show ?thesis
      using scoreForWinner_bounds [of a w] by simp
  next
    case None
    show ?thesis
    proof (cases "isFull cells")
      case True
      with None show ?thesis by simp
    next
      case False
      let ?p = "if isMaximizing then ai a else human a"
      let ?ms = "availableMoves cells"
      let ?S = "child_score fuel a cells depth isMaximizing ` set ?ms"
      have p: "?p \<noteq> Empty"
        using assms(1,2) by simp
      from False have pos: "0 < count_empty cells"
        by (simp add: isFull_count)
      have child: "\<exists>s. minimax fuel a (place cells m ?p) (depth + 1) (\<not> isMaximizing)
                        = Some (s, place cells m ?p) \<and> - 10 \<le> s \<and> s \<le> 10"
        if "m \<in> set ?ms" for m
      proof -
        from place_available [OF that Suc.prems(1) p]
        have l: "length (place cells m ?p) = 9"
          and c: "Suc (count_empty (place cells m ?p)) = count_empty cells"
          by simp_all
        from c Suc.prems(2) have "count_empty (place cells m ?p) < fuel"
          by simp
        moreover have "INT_MIN \<le> depth + 1"
          using Suc.prems(3) by simp
        moreover have "depth + 1 + int (count_empty (place cells m ?p)) \<le> INT_MAX"
          using c Suc.prems(4) by linarith
        ultimately show ?thesis
          using l by (intro Suc.IH)
      qed
      have ii: "in_int (depth + 1)"
        using Suc.prems(3,4) pos by (simp add: in_int_def)
      have r: "minimax (Suc fuel) a cells depth isMaximizing
                 = Some ((if isMaximizing then Max else Min) ?S, cells)"
        using child None False Suc.prems(1) ii by (rule minimax_step)
      have S: "finite ?S" "?S \<noteq> {}"
        using False isFull_moves [OF Suc.prems(1)] by simp_all
      then have "(if isMaximizing then Max else Min) ?S \<in> ?S"
        using Max_in [of ?S] Min_in [of ?S] by auto
      then obtain m where "m \<in> set ?ms"
        "(if isMaximizing then Max else Min) ?S = child_score fuel a cells depth isMaximizing m"
        by blast
      moreover from child [OF this(1)] obtain s where
        "minimax fuel a (place cells m ?p) (depth + 1) (\<not> isMaximizing)
           = Some (s, place cells m ?p)" "- 10 \<le> s" "s \<le> 10"
        by blast
      then have "- 10 \<le> child_score fuel a cells depth isMaximizing m
          \<and> child_score fuel a cells depth isMaximizing m \<le> 10"
        by (simp add: child_score_def score_of_def)
      ultimately have "- 10 \<le> (if isMaximizing then Max else Min) ?S
          \<and> (if isMaximizing then Max else Min) ?S \<le> 10"
        by simp
      with r show ?thesis
        by simp
    qed
  qed
qed

lemma minimax_independent:
  assumes "ai a \<noteq> Empty" "human a \<noteq> Empty"
    and "length cells = 9"
    and "count_empty cells < fuel" "INT_MIN \<le> depth" "depth + int (count_empty cells) \<le> INT_MAX"
    and "count_empty cells < fuel'" "INT_MIN \<le> depth'"
      "depth' + int (count_empty cells) \<le> INT_MAX"
  shows "minimax fuel a cells depth isMaximizing = minimax fuel' a cells depth' isMaximizing"
  using assms(3-)
proof (induction fuel arbitrary: fuel' cells depth depth' isMaximizing)
  case 0
  then show ?case by simp
next
  case (Suc fuel)
  from Suc.prems(5) obtain k where k: "fuel' = Suc k"
    by (cases fuel') auto
  show ?case
  proof (cases "checkWinner cells = None \<and> \<not> isFull cells")
    case False
    then show ?thesis
      unfolding k by (cases "checkWinner cells") auto
  next
    case True
    let ?p = "if isMaximizing then ai a else human a"
    let ?ms = "availableMoves cells"
    have p: "?p \<noteq> Empty"
      using assms(1,2) by simp
    from True have pos: "0 < count_empty cells"
      by (simp add: isFull_count)
    have cnt: "length (place cells m ?p) = 9"
      "Suc (count_empty (place cells m ?p)) = count_empty cells" if "m \<in> set ?ms" for m
      using place_available [OF that Suc.prems(1) p] by simp_all
    have child: "\<exists>s. minimax n a (place cells m ?p) (d + 1) (\<not> isMaximizing)
                        = Some (s, place cells m ?p) \<and> - 10 \<le> s \<and> s \<le> 10"
      if "m \<in> set ?ms" "count_empty cells < Suc n" "INT_MIN \<le> d"
        "d + int (count_empty cells) \<le> INT_MAX" for m n d
    proof -
      have "count_empty (place cells m ?p) < n" "INT_MIN \<le> d + 1"
        "d + 1 + int (count_empty (place cells m ?p)) \<le> INT_MAX"
        using cnt(2) [OF that(1)] that(2-4) by linarith+
      then show ?thesis
        using cnt(1) [OF that(1)] by (intro minimax_returns assms(1,2))
    qed
    have ii: "in_int (depth + 1)" "in_int (depth' + 1)"
      using Suc.prems pos by (simp_all add: in_int_def)
    have l: "minimax (Suc fuel) a cells depth isMaximizing
               = Some ((if isMaximizing then Max else Min)
                         (child_score fuel a cells depth isMaximizing ` set ?ms), cells)"
      using True Suc.prems(1,2,3,4) ii(1) by (intro minimax_step child) simp_all
    have r: "minimax (Suc k) a cells depth' isMaximizing
               = Some ((if isMaximizing then Max else Min)
                         (child_score k a cells depth' isMaximizing ` set ?ms), cells)"
      using True Suc.prems(1,5,6,7) ii(2) unfolding k by (intro minimax_step child) simp_all
    have "child_score fuel a cells depth isMaximizing m
            = child_score k a cells depth' isMaximizing m" if "m \<in> set ?ms" for m
    proof -
      have "minimax fuel a (place cells m ?p) (depth + 1) (\<not> isMaximizing)
              = minimax k a (place cells m ?p) (depth' + 1) (\<not> isMaximizing)"
        using cnt [OF that] Suc.prems(2-) unfolding k
        by (intro Suc.IH) linarith+
      then show ?thesis
        by (simp add: child_score_def)
    qed
    then have "child_score fuel a cells depth isMaximizing ` set ?ms
                 = child_score k a cells depth' isMaximizing ` set ?ms"
      by (intro image_cong) simp_all
    with l r show ?thesis
      unfolding k by simp
  qed
qed

text \<open>
  Claim C1, as the code has it. For an AI whose two marks are distinct and not \<open>Empty\<close>,
  on any nine-cell board, \<open>minimax\<close> returns and leaves the board as it found it (every
  move it applied is undone). The score is \<open>+10\<close> when \<open>checkWinner\<close> reports the AI's
  mark, \<open>-10\<close> when it reports the human's mark, and \<open>0\<close> when the board is full with no
  winner. Otherwise every recursive call, made on the board with the mover's mark on
  one available move, returns, and the score is the maximum of their scores on a
  maximizing ply and the minimum on a minimizing ply. The score is the same at any
  other depth \<open>depth'\<close> (and for any other sufficient bound \<open>fuel'\<close>).
\<close>

theorem minimax_scores:
  assumes "ai a \<noteq> Empty" "human a \<noteq> Empty" "ai a \<noteq> human a"
    and "length cells = 9"
    and "count_empty cells < fuel" "INT_MIN \<le> depth" "depth + int (count_empty cells) \<le> INT_MAX"
    and "count_empty cells < fuel'" "INT_MIN \<le> depth'"
      "depth' + int (count_empty cells) \<le> INT_MAX"
  shows "\<exists>score.
           minimax fuel a cells depth isMaximizing = Some (score, cells)
         \<and> minimax fuel' a cells depth' isMaximizing = Some (score, cells)
         \<and> (checkWinner cells = Some (ai a) \<longrightarrow> score = 10)
         \<and> (checkWinner cells = Some (human a) \<longrightarrow> score = - 10)
         \<and> (checkWinner cells = None \<and> isFull cells \<longrightarrow> score = 0)
         \<and> (checkWinner cells = None \<and> \<not> isFull cells \<longrightarrow>
               (\<forall>m \<in> set (availableMoves cells).
                   \<exists>s. minimax (fuel - 1) a
                          (place cells m (if isMaximizing then ai a else human a))
                          (depth + 1) (\<not> isMaximizing)
                        = Some (s, place cells m (if isMaximizing then ai a else human a)))
             \<and> score = (if isMaximizing then Max else Min)
                          (child_score (fuel - 1) a cells depth isMaximizing
                             ` set (availableMoves cells)))"
proof -
  from minimax_returns [OF assms(1,2,4-7)] obtain score where
    s: "minimax fuel a cells depth isMaximizing = Some (score, cells)"
    by blast
  from assms(5) obtain n where n: "fuel = Suc n"
    by (cases fuel) auto
  have same: "minimax fuel' a cells depth' isMaximizing = Some (score, cells)"
    using minimax_independent [OF assms(1,2,4-10), of isMaximizing] s by simp
  have win: "score = 10" if "checkWinner cells = Some (ai a)"
    using s that unfolding n by (simp add: scoreForWinner_def)
  have loss: "score = - 10" if "checkWinner cells = Some (human a)"
    using s that assms(3) unfolding n by (simp add: scoreForWinner_def)
  have draw: "score = 0" if "checkWinner cells = None \<and> isFull cells"
    using s that unfolding n by simp
  have step: "(\<forall>m \<in> set (availableMoves cells).
                   \<exists>s. minimax (fuel - 1) a
                          (place cells m (if isMaximizing then ai a else human a))
                          (depth + 1) (\<not> isMaximizing)
                        = Some (s, place cells m (if isMaximizing then ai a else human a)))
             \<and> score = (if isMaximizing then Max else Min)
                          (child_score (fuel - 1) a cells depth isMaximizing
                             ` set (availableMoves cells))"
    if nt: "checkWinner cells = None \<and> \<not> isFull cells"
  proof -
    let ?p = "if isMaximizing then ai a else human a"
    have p: "?p \<noteq> Empty"
      using assms(1,2) by simp
    from nt have pos: "0 < count_empty cells"
      by (simp add: isFull_count)
    have child: "\<exists>s. minimax n a (place cells m ?p) (depth + 1) (\<not> isMaximizing)
                        = Some (s, place cells m ?p) \<and> - 10 \<le> s \<and> s \<le> 10"
      if "m \<in> set (availableMoves cells)" for m
    proof -
      from place_available [OF that assms(4) p]
      have l: "length (place cells m ?p) = 9"
        and c: "Suc (count_empty (place cells m ?p)) = count_empty cells"
        by simp_all
      have "count_empty (place cells m ?p) < n" "INT_MIN \<le> depth + 1"
        "depth + 1 + int (count_empty (place cells m ?p)) \<le> INT_MAX"
        using c assms(5-7) unfolding n by linarith+
      then show ?thesis
        using l by (intro minimax_returns assms(1,2))
    qed
    have ii: "in_int (depth + 1)"
      using assms(6,7) pos by (simp add: in_int_def)
    have "minimax (Suc n) a cells depth isMaximizing
               = Some ((if isMaximizing then Max else Min)
                         (child_score n a cells depth isMaximizing ` set (availableMoves cells)),
                       cells)"
      using nt assms(4) ii by (intro minimax_step child) simp_all
    with s have "score = (if isMaximizing then Max else Min)
                         (child_score n a cells depth isMaximizing ` set (availableMoves cells))"
      unfolding n by simp
    moreover have "\<forall>m \<in> set (availableMoves cells).
                   \<exists>s. minimax n a (place cells m ?p) (depth + 1) (\<not> isMaximizing)
                        = Some (s, place cells m ?p)"
      using child by blast
    ultimately show ?thesis
      unfolding n by simp
  qed
  show ?thesis
    using s same win loss draw step by (intro exI [of _ score]) blast
qed

theorem minimax_scores_witness:
  "minimax 10 \<lparr>ai = O', human = X\<rparr> [X, O', X, O', X, O', Empty, Empty, Empty] 0 True
     = Some (- 10, [X, O', X, O', X, O', Empty, Empty, Empty])
   \<and> minimax 4 \<lparr>ai = O', human = X\<rparr> [X, O', X, O', X, O', Empty, Empty, Empty] 7 True
     = Some (- 10, [X, O', X, O', X, O', Empty, Empty, Empty])
   \<and> Max (child_score 9 \<lparr>ai = O', human = X\<rparr> [X, O', X, O', X, O', Empty, Empty, Empty] 0 True
            ` set (availableMoves [X, O', X, O', X, O', Empty, Empty, Empty])) = - 10"
proof -
  let ?a = "\<lparr>ai = O', human = X\<rparr>"
  let ?b = "[X, O', X, O', X, O', Empty, Empty, Empty]"
  have h: "ai ?a \<noteq> Empty" "human ?a \<noteq> Empty" "ai ?a \<noteq> human ?a" "length ?b = 9"
    "count_empty ?b < 10" "INT_MIN \<le> 0" "0 + int (count_empty ?b) \<le> INT_MAX"
    "count_empty ?b < 4" "INT_MIN \<le> 7" "7 + int (count_empty ?b) \<le> INT_MAX"
    by (simp_all add: count_empty_def INT_MIN_def INT_MAX_def)
  have nt: "checkWinner ?b = None \<and> \<not> isFull ?b"
    by code_simp
  have v: "minimax 10 ?a ?b 0 True = Some (- 10, ?b)"
    by code_simp
  from minimax_scores [OF h, of True] nt obtain score where
    s: "minimax 10 ?a ?b 0 True = Some (score, ?b)"
      "minimax 4 ?a ?b 7 True = Some (score, ?b)"
      "score = (if True then Max else Min)
                 (child_score (10 - 1) ?a ?b 0 True ` set (availableMoves ?b))"
    by blast
  from s(1) v have "score = - 10"
    by simp
  with s(2,3) v show ?thesis
    by simp
qed

text \<open>
  A board with a complete line of each mark: the middle row is the AI's, yet the score
  is \<open>-10\<close>, because \<open>checkWinner\<close> reports the top row first.
\<close>

theorem minimax_two_lines_counterexample:
  "line_complete [X, X, X, O', O', O', Empty, Empty, Empty] (3, 4, 5)
   \<and> [X, X, X, O', O', O', Empty, Empty, Empty] ! 3 = ai \<lparr>ai = O', human = X\<rparr>
   \<and> minimax 10 \<lparr>ai = O', human = X\<rparr> [X, X, X, O', O', O', Empty, Empty, Empty] 0 True
       = Some (- 10, [X, X, X, O', O', O', Empty, Empty, Empty])"
  by code_simp

lemma first_best_none:
  "\<forall>m \<in> set ms. f m \<le> bestScore \<Longrightarrow> first_best f ms bestScore bestMove = bestMove"
  by (induction ms) auto

lemma first_best_member:
  "first_best f ms bestScore bestMove \<in> insert bestMove (set ms)"
  by (induction ms arbitrary: bestScore bestMove) (auto split: if_splits)

lemma Max_tail:
  fixes f :: "'m \<Rightarrow> int"
  assumes "x \<in> set ms" "f m < f x"
  shows "Max (f ` set (m # ms)) = Max (f ` set ms)" and "f m \<noteq> Max (f ` set ms)"
proof -
  have "f x \<le> Max (f ` set ms)"
    using assms(1) by simp
  with assms(2) have lt: "f m < Max (f ` set ms)"
    by simp
  then show "f m \<noteq> Max (f ` set ms)"
    by simp
  have "f ` set ms \<noteq> {}"
    using assms(1) by auto
  then have "Max (f ` set (m # ms)) = max (f m) (Max (f ` set ms))"
    by simp
  with lt show "Max (f ` set (m # ms)) = Max (f ` set ms)"
    by simp
qed

lemma first_best_find:
  fixes f :: "'m \<Rightarrow> int"
  assumes "\<exists>m \<in> set ms. bestScore < f m"
  shows "find (\<lambda>m. f m = Max (f ` set ms)) ms = Some (first_best f ms bestScore bestMove)"
  using assms
proof (induction ms arbitrary: bestScore bestMove)
  case Nil
  then show ?case by simp
next
  case (Cons m ms)
  show ?case
  proof (cases "bestScore < f m")
    case True
    show ?thesis
    proof (cases "\<forall>x \<in> set ms. f x \<le> f m")
      case all: True
      then have "Max (f ` set (m # ms)) = f m"
        by (intro Max_eqI) auto
      then show ?thesis
        using True first_best_none [OF all, of m] by simp
    next
      case False
      then obtain x where x: "x \<in> set ms" "f m < f x"
        by auto
      then have "find (\<lambda>m. f m = Max (f ` set ms)) ms = Some (first_best f ms (f m) m)"
        by (intro Cons.IH) blast
      then show ?thesis
        using True Max_tail [OF x] by simp
    qed
  next
    case False
    with Cons.prems obtain x where x: "x \<in> set ms" "bestScore < f x"
      by auto
    with False have lt: "f m < f x"
      by simp
    from x have "find (\<lambda>m. f m = Max (f ` set ms)) ms = Some (first_best f ms bestScore bestMove)"
      by (intro Cons.IH) blast
    then show ?thesis
      using False Max_tail [OF x(1) lt] by simp
  qed
qed

lemma findBestMove_loop_first_best:
  assumes "set ms \<subseteq> set (availableMoves cells)"
    and "\<And>m. m \<in> set ms \<Longrightarrow>
           \<exists>s. minimax fuel a (place cells m (ai a)) 0 False = Some (s, place cells m (ai a))"
  shows "findBestMove_loop fuel a ms bestScore bestMove cells
           = Some (first_best (root_score fuel a cells) ms bestScore bestMove)"
  using assms
proof (induction ms arbitrary: bestScore bestMove)
  case Nil
  show ?case by simp
next
  case (Cons m ms)
  from Cons.prems(1) have av: "m \<in> set (availableMoves cells)"
    by simp
  from Cons.prems(2) [of m] obtain s where
    s: "minimax fuel a (place cells m (ai a)) 0 False = Some (s, place cells m (ai a))"
    by auto
  then have rs: "root_score fuel a cells m = s"
    by (simp add: root_score_def score_of_def)
  have rest: "findBestMove_loop fuel a ms bs bm cells
           = Some (first_best (root_score fuel a cells) ms bs bm)" for bs bm
    using Cons.prems by (intro Cons.IH) auto
  show ?case
    by (simp add: makeMove_available [OF av] undoMove_available [OF av] s rs rest)
qed

lemma first_best_cong:
  "(\<And>m. m \<in> set ms \<Longrightarrow> f m = g m)
     \<Longrightarrow> first_best f ms bestScore bestMove = first_best g ms bestScore bestMove"
  by (induction ms arbitrary: bestScore bestMove) auto

lemma findBestMove_loop_member:
  "findBestMove_loop fuel a ms bestScore bestMove cells = Some m
     \<Longrightarrow> m \<in> insert bestMove (set ms)"
proof (induction ms arbitrary: bestScore bestMove cells)
  case Nil
  then show ?case by simp
next
  case (Cons x xs)
  from Cons.prems obtain bs bm cells' where
    "findBestMove_loop fuel a xs bs bm cells' = Some m" "bm = bestMove \<or> bm = x"
    by (auto split: option.splits prod.splits if_splits)
  with Cons.IH [of bs bm cells'] show ?case
    by auto
qed

lemma findBestMove_children:
  assumes "ai a \<noteq> Empty" "human a \<noteq> Empty" "length cells = 9" "count_empty cells \<le> fuel"
    and "m \<in> set (availableMoves cells)"
  shows "\<exists>s. minimax fuel a (place cells m (ai a)) 0 False = Some (s, place cells m (ai a))
           \<and> - 10 \<le> s \<and> s \<le> 10"
proof -
  from place_available [OF assms(5,3,1)]
  have l: "length (place cells m (ai a)) = 9"
    and c: "Suc (count_empty (place cells m (ai a))) = count_empty cells"
    by simp_all
  have "count_empty (place cells m (ai a)) \<le> 9"
    using count_empty_le [of "place cells m (ai a)"] l by simp
  then have "0 + int (count_empty (place cells m (ai a))) \<le> INT_MAX" "INT_MIN \<le> 0"
    by (simp_all add: INT_MAX_def INT_MIN_def)
  moreover have "count_empty (place cells m (ai a)) < fuel"
    using c assms(4) by simp
  ultimately show ?thesis
    using l by (intro minimax_returns assms(1,2))
qed

lemma root_score_bounds:
  assumes "ai a \<noteq> Empty" "human a \<noteq> Empty" "length cells = 9" "count_empty cells \<le> fuel"
    and "m \<in> set (availableMoves cells)"
  shows "- 10 \<le> root_score fuel a cells m \<and> root_score fuel a cells m \<le> 10"
proof -
  from findBestMove_children [OF assms] obtain s where
    "minimax fuel a (place cells m (ai a)) 0 False = Some (s, place cells m (ai a))"
    "- 10 \<le> s" "s \<le> 10"
    by blast
  then show ?thesis
    by (simp add: root_score_def score_of_def)
qed

lemma findBestMove_result:
  assumes "ai a \<noteq> Empty" "human a \<noteq> Empty" "length cells = 9" "count_empty cells \<le> fuel"
  shows "findBestMove fuel a cells
           = Some (first_best (root_score fuel a cells) (availableMoves cells) INT_MIN (- 1, - 1))"
proof -
  have "\<exists>s. minimax fuel a (place cells m (ai a)) 0 False = Some (s, place cells m (ai a))"
    if "m \<in> set (availableMoves cells)" for m
    using findBestMove_children [OF assms that] by blast
  then show ?thesis
    unfolding findBestMove_def by (intro findBestMove_loop_first_best subset_refl)
qed

lemma root_score_independent:
  assumes "ai a \<noteq> Empty" "human a \<noteq> Empty" "length cells = 9"
    and "count_empty cells \<le> fuel" "count_empty cells \<le> fuel'"
    and "m \<in> set (availableMoves cells)"
  shows "root_score fuel' a cells m = root_score fuel a cells m"
proof -
  from place_available [OF assms(6,3,1)]
  have l: "length (place cells m (ai a)) = 9"
    and c: "Suc (count_empty (place cells m (ai a))) = count_empty cells"
    by simp_all
  have "count_empty (place cells m (ai a)) \<le> 9"
    using count_empty_le [of "place cells m (ai a)"] l by simp
  then have "0 + int (count_empty (place cells m (ai a))) \<le> INT_MAX" "INT_MIN \<le> 0"
    by (simp_all add: INT_MAX_def INT_MIN_def)
  moreover have "count_empty (place cells m (ai a)) < fuel"
    "count_empty (place cells m (ai a)) < fuel'"
    using c assms(4,5) by simp_all
  ultimately have "minimax fuel' a (place cells m (ai a)) 0 False
      = minimax fuel a (place cells m (ai a)) 0 False"
    using l by (intro minimax_independent assms(1,2))
  then show ?thesis
    by (simp add: root_score_def)
qed

lemma findBestMove_independent:
  assumes "ai a \<noteq> Empty" "human a \<noteq> Empty" "length cells = 9"
    and "count_empty cells \<le> fuel" "count_empty cells \<le> fuel'"
  shows "findBestMove fuel' a cells = findBestMove fuel a cells"
  unfolding findBestMove_result [OF assms(1-4)] findBestMove_result [OF assms(1-3,5)]
  using root_score_independent [OF assms]
  by (simp cong: first_best_cong)

lemma availableMoves_get:
  "availableMoves cells = filter (\<lambda>m. get cells (fst m) (snd m) = Some Empty) all_cells"
  unfolding availableMoves_filter
  by (rule filter_cong [OF refl]) (auto simp: all_cells_def get_def cell_index_in_range)

text \<open>
  Claim C2. \<open>findBestMove\<close> scans the empty cells row by row. On a full board it returns
  \<open>(-1,-1)\<close>. Otherwise each move's score is that of \<open>minimax(board, 0, false)\<close> on the
  board with the AI's mark on the move, and the result is the first move of the scan
  whose score is the maximum over all available moves. The result is a function of
  the board: it does not depend on the bound given to the search.
\<close>

theorem findBestMove_first_max:
  assumes "ai a \<noteq> Empty" "human a \<noteq> Empty" "length cells = 9"
    and "count_empty cells \<le> fuel" "count_empty cells \<le> fuel'"
  shows "availableMoves cells
           = filter (\<lambda>m. get cells (fst m) (snd m) = Some Empty)
               [(0, 0), (0, 1), (0, 2), (1, 0), (1, 1), (1, 2), (2, 0), (2, 1), (2, 2)]
       \<and> (\<forall>m \<in> set (availableMoves cells).
             \<exists>s. minimax fuel a (place cells m (ai a)) 0 False
                    = Some (s, place cells m (ai a)))
       \<and> (isFull cells \<longrightarrow> findBestMove fuel a cells = Some (- 1, - 1))
       \<and> (\<not> isFull cells \<longrightarrow>
            (\<exists>m. findBestMove fuel a cells = Some m
                \<and> find (\<lambda>m'. root_score fuel a cells m'
                                 = Max (root_score fuel a cells ` set (availableMoves cells)))
                     (availableMoves cells) = Some m))
       \<and> findBestMove fuel' a cells = findBestMove fuel a cells"
proof -
  let ?ms = "availableMoves cells"
  let ?f = "root_score fuel a cells"
  have order: "?ms = filter (\<lambda>m. get cells (fst m) (snd m) = Some Empty)
               [(0, 0), (0, 1), (0, 2), (1, 0), (1, 1), (1, 2), (2, 0), (2, 1), (2, 2)]"
    using availableMoves_get [of cells] by (simp only: all_cells_def)
  have children: "\<forall>m \<in> set ?ms.
             \<exists>s. minimax fuel a (place cells m (ai a)) 0 False
                    = Some (s, place cells m (ai a))"
    using findBestMove_children [OF assms(1-4)] by blast
  have res: "findBestMove fuel a cells = Some (first_best ?f ?ms INT_MIN (- 1, - 1))"
    by (rule findBestMove_result [OF assms(1-4)])
  have full: "findBestMove fuel a cells = Some (- 1, - 1)" if "isFull cells"
    using that isFull_moves [OF assms(3)] res by simp
  have best: "\<exists>m. findBestMove fuel a cells = Some m
                \<and> find (\<lambda>m'. ?f m' = Max (?f ` set ?ms)) ?ms = Some m" if "\<not> isFull cells"
  proof -
    from that obtain m where m: "m \<in> set ?ms"
      using isFull_moves [OF assms(3)] by (cases ?ms) auto
    then have "INT_MIN < ?f m"
      using root_score_bounds [OF assms(1-4) m] by (simp add: INT_MIN_def)
    with m have "\<exists>m \<in> set ?ms. INT_MIN < ?f m"
      by blast
    from first_best_find [OF this, of "(- 1, - 1)"] res show ?thesis
      by simp
  qed
  show ?thesis
    using order children full best findBestMove_independent [OF assms] by blast
qed

theorem findBestMove_first_max_witness:
  "findBestMove 9 \<lparr>ai = O', human = X\<rparr> [X, O', X, O', X, Empty, Empty, Empty, Empty]
     = Some (1, 2)
   \<and> find (\<lambda>m'. root_score 9 \<lparr>ai = O', human = X\<rparr>
                    [X, O', X, O', X, Empty, Empty, Empty, Empty] m'
                 = Max (root_score 9 \<lparr>ai = O', human = X\<rparr>
                          [X, O', X, O', X, Empty, Empty, Empty, Empty]
                        ` set (availableMoves [X, O', X, O', X, Empty, Empty, Empty, Empty])))
        (availableMoves [X, O', X, O', X, Empty, Empty, Empty, Empty]) = Some (1, 2)
   \<and> findBestMove 20 \<lparr>ai = O', human = X\<rparr> [X, O', X, O', X, Empty, Empty, Empty, Empty]
     = Some (1, 2)"
proof -
  let ?a = "\<lparr>ai = O', human = X\<rparr>"
  let ?b = "[X, O', X, O', X, Empty, Empty, Empty, Empty]"
  have h: "ai ?a \<noteq> Empty" "human ?a \<noteq> Empty" "length ?b = 9"
    "count_empty ?b \<le> 9" "count_empty ?b \<le> 20"
    by (simp_all add: count_empty_def)
  have nf: "\<not> isFull ?b"
    by (simp add: isFull_def)
  have v: "findBestMove 9 ?a ?b = Some (1, 2)"
    by code_simp
  from findBestMove_first_max [OF h] nf obtain m where
    m: "findBestMove 9 ?a ?b = Some m"
      "find (\<lambda>m'. root_score 9 ?a ?b m' = Max (root_score 9 ?a ?b ` set (availableMoves ?b)))
         (availableMoves ?b) = Some m"
    and i: "findBestMove 20 ?a ?b = findBestMove 9 ?a ?b"
    by blast
  from m(1) v have "m = (1, 2)"
    by simp
  with m(2) i v show ?thesis
    by (simp only: simp_thms)
qed

text \<open>
  Claim C3. On the board \<open>[X,X,Empty, O,O,Empty, Empty,Empty,Empty]\<close> with \<open>X\<close> the
  maximizing player, \<open>findBestMove\<close> returns \<open>(0,2)\<close>.
\<close>

theorem findBestMove_scenario:
  assumes "5 \<le> fuel"
  shows "findBestMove fuel \<lparr>ai = X, human = O'\<rparr>
           [X, X, Empty, O', O', Empty, Empty, Empty, Empty] = Some (0, 2)"
proof -
  let ?a = "\<lparr>ai = X, human = O'\<rparr>"
  let ?b = "[X, X, Empty, O', O', Empty, Empty, Empty, Empty]"
  have c: "count_empty ?b = 5"
    by (simp add: count_empty_def)
  have "findBestMove fuel ?a ?b = findBestMove 5 ?a ?b"
    using assms c by (intro findBestMove_independent) simp_all
  also have "\<dots> = Some (0, 2)"
    by code_simp
  finally show ?thesis .
qed

theorem findBestMove_scenario_witness:
  "findBestMove 9 \<lparr>ai = X, human = O'\<rparr>
     [X, X, Empty, O', O', Empty, Empty, Empty, Empty] = Some (0, 2)"
  using findBestMove_scenario [of 9] by simp

section \<open>The computer's move\<close>

text \<open>
  Claim C6, as the code has it. \<open>aiMove\<close> does nothing when the session is over, and
  nothing when the search reports no move. When the search returns a move and \<open>O\<close> is
  the current player, \<open>aiMove\<close> does exactly what \<open>playMove\<close> does on that move: the
  mark of \<open>O\<close> on the cell, the terminal check, the change of turn. (The counters are
  assumed below \<open>INT_MAX\<close>.)
\<close>

theorem aiMove_effect:
  "(over g \<longrightarrow> aiMove fuel g = Some g)
   \<and> (\<not> over g \<and> findBestMove fuel (game_ai g) (board g) = Some (r, c) \<and> r < 0
        \<longrightarrow> aiMove fuel g = Some g)
   \<and> (\<not> over g \<and> findBestMove fuel (game_ai g) (board g) = Some (r, c) \<and> 0 \<le> r
        \<and> current g = O' \<and> in_int (scoreX g + 1) \<and> in_int (scoreO g + 1)
        \<longrightarrow> (\<exists>g'. aiMove fuel g = Some g' \<and> playMove g r c = Some (True, g')
                  \<and> board g' = (board g)[nat (r * SIZE + c) := O']))"
proof (intro conjI impI)
  assume "over g"
  then show "aiMove fuel g = Some g"
    by (simp add: aiMove_def)
next
  assume "\<not> over g \<and> findBestMove fuel (game_ai g) (board g) = Some (r, c) \<and> r < 0"
  then show "aiMove fuel g = Some g"
    by (simp add: aiMove_def)
next
  assume a: "\<not> over g \<and> findBestMove fuel (game_ai g) (board g) = Some (r, c) \<and> 0 \<le> r
        \<and> current g = O' \<and> in_int (scoreX g + 1) \<and> in_int (scoreO g + 1)"
  then have "(r, c) \<in> insert (- 1, - 1) (set (availableMoves (board g)))"
    unfolding findBestMove_def by (intro findBestMove_loop_member) blast
  with a have av: "(r, c) \<in> set (availableMoves (board g))"
    by auto
  from availableMoves_valid [OF av]
  have rc: "0 \<le> r" "r < SIZE" "0 \<le> c" "c < SIZE"
    and e: "board g ! nat (r * SIZE + c) = Empty"
    by simp_all
  let ?g1 = "g\<lparr>board := (board g)[nat (r * SIZE + c) := O']\<rparr>"
  have "in_int (scoreX ?g1 + 1)" "in_int (scoreO ?g1 + 1)" "\<not> over ?g1"
    using a by simp_all
  from finishMove_result [OF this] obtain g' where
    f: "finishMove ?g1 = Some g'" and b: "board g' = board ?g1"
    by blast
  have "aiMove fuel g = Some g'"
    using a f makeMove_available [OF av, of O'] by (simp add: aiMove_def place_def)
  moreover have "get (board g) r c = Some Empty"
    using e rc by (simp add: get_def cell_index_in_range)
  then have "playMove g r c = Some (True, g')"
    using playMove_accepts [OF rc, of g] a f by simp
  ultimately show "\<exists>g'. aiMove fuel g = Some g' \<and> playMove g r c = Some (True, g')
                  \<and> board g' = (board g)[nat (r * SIZE + c) := O']"
    using b by simp
qed

theorem aiMove_effect_witness:
  "aiMove 9 \<lparr>board = [X, O', X, O', X, Empty, Empty, Empty, Empty], current = O',
             mode = HumanVsAI, game_ai = \<lparr>ai = O', human = X\<rparr>,
             over = False, winnerOpt = None, scoreX = 0, scoreO = 0\<rparr>
     = Some \<lparr>board = [X, O', X, O', X, O', Empty, Empty, Empty], current = X,
              mode = HumanVsAI, game_ai = \<lparr>ai = O', human = X\<rparr>,
              over = False, winnerOpt = None, scoreX = 0, scoreO = 0\<rparr>
   \<and> playMove \<lparr>board = [X, O', X, O', X, Empty, Empty, Empty, Empty], current = O',
               mode = HumanVsAI, game_ai = \<lparr>ai = O', human = X\<rparr>,
               over = False, winnerOpt = None, scoreX = 0, scoreO = 0\<rparr> 1 2
     = Some (True, \<lparr>board = [X, O', X, O', X, O', Empty, Empty, Empty], current = X,
                    mode = HumanVsAI, game_ai = \<lparr>ai = O', human = X\<rparr>,
                    over = False, winnerOpt = None, scoreX = 0, scoreO = 0\<rparr>)"
proof -
  let ?g = "\<lparr>board = [X, O', X, O', X, Empty, Empty, Empty, Empty], current = O',
             mode = HumanVsAI, game_ai = \<lparr>ai = O', human = X\<rparr>,
             over = False, winnerOpt = None, scoreX = 0, scoreO = 0\<rparr>"
  have v: "findBestMove 9 (game_ai ?g) (board ?g) = Some (1, 2)"
    by code_simp
  have w: "aiMove 9 ?g = Some \<lparr>board = [X, O', X, O', X, O', Empty, Empty, Empty], current = X,
              mode = HumanVsAI, game_ai = \<lparr>ai = O', human = X\<rparr>,
              over = False, winnerOpt = None, scoreX = 0, scoreO = 0\<rparr>"
    by code_simp
  have h: "\<not> over ?g \<and> findBestMove 9 (game_ai ?g) (board ?g) = Some (1, 2) \<and> (0::int) \<le> 1
        \<and> current ?g = O' \<and> in_int (scoreX ?g + 1) \<and> in_int (scoreO ?g + 1)"
    using v by (simp add: in_int_def INT_MIN_def INT_MAX_def)
  from aiMove_effect [of ?g 9 1 2] h obtain g' where
    "aiMove 9 ?g = Some g'" "playMove ?g 1 2 = Some (True, g')"
    by blast
  with w show ?thesis
    by simp
qed

text \<open>
  \<open>aiMove\<close> does not test whose turn it is. With \<open>X\<close> to move on a session in progress
  it places the mark of \<open>O\<close> and then gives the turn to \<open>O\<close>.
\<close>

theorem aiMove_turn_counterexample:
  "aiMove 9 \<lparr>board = [X, O', X, O', X, O', Empty, Empty, Empty], current = X,
             mode = HumanVsAI, game_ai = \<lparr>ai = O', human = X\<rparr>,
             over = False, winnerOpt = None, scoreX = 0, scoreO = 0\<rparr>
     = Some \<lparr>board = [X, O', X, O', X, O', O', Empty, Empty], current = O',
              mode = HumanVsAI, game_ai = \<lparr>ai = O', human = X\<rparr>,
              over = False, winnerOpt = None, scoreX = 0, scoreO = 0\<rparr>"
  by code_simp

end
